theory Spec2Isabelle
  imports Main
begin

section \<open>Data of the resumable change-stream consumer (src/app.js)\<close>

text \<open>
  A resume token is the \<^verbatim>\<open>_id\<close> document of a change event. It is an object, hence
  truthy in JavaScript, so the module variable \<^verbatim>\<open>lastResumeToken\<close> (\<^verbatim>\<open>null\<close> or a token)
  is a \<open>resume_token option\<close> and the test \<^verbatim>\<open>lastResumeToken ? .. : ..\<close> is a case
  distinction on it.
\<close>

datatype resume_token = ResumeToken string

record change_event =
  operationType :: string
  change_id :: resume_token
  fullDocument :: string

text \<open>The fields of a stream error that the handler reads; both may be undefined.\<close>

record mongo_error =
  code :: "int option"
  codeName :: "string option"
  message :: string

text \<open>\<^verbatim>\<open>console.log\<close>, \<^verbatim>\<open>console.warn\<close> and \<^verbatim>\<open>console.error\<close>.\<close>

datatype level = LOG | WARN | ERROR

text \<open>
  The options object given to \<^verbatim>\<open>MessageModel.watch\<close>, as its list of keys and values:
  \<^verbatim>\<open>{}\<close> is the empty list.
\<close>

type_synonym watch_options = "(string \<times> resume_token) list"

text \<open>
  A change stream handle as the program sees it: what it was opened with and its
  \<^verbatim>\<open>closed\<close> property. \<open>errored\<close> records that the stream has emitted its
  \<^verbatim>\<open>'error'\<close> event; the program never reads it.
\<close>

record change_stream =
  pipeline :: "(string \<times> string) list"
  options :: watch_options
  closed :: bool
  errored :: bool

text \<open>A pending \<^verbatim>\<open>setTimeout(setupChangeStream, delay)\<close>, set at the clock value \<open>set_at\<close>.\<close>

record timer =
  set_at :: nat
  delay :: nat

text \<open>
  The \<^verbatim>\<open>await\<close> points of the program: \<^verbatim>\<open>mongoose.connect\<close> (line 82), the errored
  stream's \<^verbatim>\<open>close()\<close> (line 61), the \<^verbatim>\<open>disconnect\<close> of \<^verbatim>\<open>cleanup\<close> (line 117), and
  the \<^verbatim>\<open>close()\<close> and \<^verbatim>\<open>disconnect\<close> of the \<^verbatim>\<open>finally\<close> block (lines 105, 108).
  A promise settles as resolved or as rejected with a reason.
\<close>

datatype pending =
    Connect
  | ErrorClose nat
  | CleanupDisconnect
  | FinallyClose nat
  | FinallyDisconnect

datatype outcome = Resolved | Rejected string

text \<open>
  The state of the program and of the runtime around it. \<open>closing\<close> and
  \<open>close_failed\<close> are the runtime's record of the \<^verbatim>\<open>close()\<close> calls made on streams:
  the streams with a call in flight, and the streams a call on which was rejected. The
  program never reads them.
\<close>

record state =
  lastResumeToken :: "resume_token option"
  currentChangeStream :: "nat option"
  streams :: "change_stream list"
  timers :: "timer list"
  awaiting :: "pending list"
  console :: "(level \<times> string) list"
  now :: nat
  connected :: bool
  started :: bool
  exited :: "int option"
  closing :: "nat list"
  close_failed :: "nat list"

definition init :: state where
  "init = \<lparr>lastResumeToken = None, currentChangeStream = None, streams = [], timers = [],
     awaiting = [], console = [], now = 0, connected = False, started = False,
     exited = None, closing = [], close_failed = []\<rparr>"

section \<open>The runtime the program calls\<close>

text \<open>
  A printed line is kept as its level and the fixed text of its first argument; the
  values printed after it are left out.
\<close>

definition console_out :: "level \<Rightarrow> string \<Rightarrow> state \<Rightarrow> state" where
  "console_out l m st = st\<lparr>console := console st @ [(l, m)]\<rparr>"

definition console_lines :: "level \<Rightarrow> string list \<Rightarrow> state \<Rightarrow> state" where
  "console_lines l ms st = st\<lparr>console := console st @ map (Pair l) ms\<rparr>"

text \<open>
  \<^verbatim>\<open>MessageModel.watch(pipeline, options)\<close> returns a new stream handle at once; the
  handle is its index in \<open>streams\<close>. Failures of the subscription arrive later as the
  stream's \<^verbatim>\<open>'error'\<close> event.
\<close>

definition watch :: "(string \<times> string) list \<Rightarrow> watch_options \<Rightarrow> state \<Rightarrow> state \<times> nat" where
  "watch p opts st =
     (st\<lparr>streams := streams st @ [\<lparr>pipeline = p, options = opts, closed = False, errored = False\<rparr>]\<rparr>,
      length (streams st))"

definition set_closed :: "nat \<Rightarrow> state \<Rightarrow> state" where
  "set_closed s st = st\<lparr>streams := (streams st)[s := (streams st ! s)\<lparr>closed := True\<rparr>]\<rparr>"

text \<open>
  \<^verbatim>\<open>changeStream.close()\<close>: Mongoose sets the handle's \<^verbatim>\<open>closed\<close> property when the
  call is made, and the close is in flight until the returned promise settles, whether
  the caller awaits it or not.
\<close>

definition close_stream :: "nat \<Rightarrow> state \<Rightarrow> state" where
  "close_stream s st = (set_closed s st)\<lparr>closing := closing st @ [s]\<rparr>"

text \<open>
  A \<^verbatim>\<open>close()\<close> on the stream \<open>s\<close> settles: the call is no longer in flight, and a
  rejected one is recorded as failed.
\<close>

definition close_settled :: "nat \<Rightarrow> outcome \<Rightarrow> state \<Rightarrow> state" where
  "close_settled s r st =
     st\<lparr>closing := remove1 s (closing st),
        close_failed := (case r of Resolved \<Rightarrow> close_failed st
                         | Rejected e \<Rightarrow> close_failed st @ [s])\<rparr>"

definition settle :: "pending \<Rightarrow> outcome \<Rightarrow> state \<Rightarrow> state" where
  "settle p r st =
     (case p of
        ErrorClose s \<Rightarrow> close_settled s r st
      | FinallyClose s \<Rightarrow> close_settled s r st
      | Connect \<Rightarrow> st
      | CleanupDisconnect \<Rightarrow> st
      | FinallyDisconnect \<Rightarrow> st)"

definition mark_errored :: "nat \<Rightarrow> state \<Rightarrow> state" where
  "mark_errored s st = st\<lparr>streams := (streams st)[s := (streams st ! s)\<lparr>errored := True\<rparr>]\<rparr>"

definition await :: "pending \<Rightarrow> state \<Rightarrow> state" where
  "await p st = st\<lparr>awaiting := awaiting st @ [p]\<rparr>"

definition setTimeout :: "nat \<Rightarrow> state \<Rightarrow> state" where
  "setTimeout ms st = st\<lparr>timers := timers st @ [\<lparr>set_at = now st, delay = ms\<rparr>]\<rparr>"

definition process_exit :: "int \<Rightarrow> state \<Rightarrow> state" where
  "process_exit c st = st\<lparr>exited := Some c\<rparr>"

section \<open>setupChangeStream and its three handlers (lines 22-76)\<close>

definition watch_options_of :: "resume_token option \<Rightarrow> watch_options" where
  "watch_options_of tok = (case tok of Some t \<Rightarrow> [(''resumeAfter'', t)] | None \<Rightarrow> [])"

definition setupChangeStream :: "state \<Rightarrow> state \<times> nat" where
  "setupChangeStream st =
     (let st1 = console_out LOG ''Attempting to set up change stream. Resuming after token: '' st;
          pipeline = [(''operationType'', ''insert'')];
          options = watch_options_of (lastResumeToken st1);
          r = watch pipeline options st1
      in (console_out LOG ''Watching for new inserts in collection for model'' (fst r), snd r))"

text \<open>The \<^verbatim>\<open>'change'\<close> handler (lines 30-38).\<close>

definition on_change :: "change_event \<Rightarrow> state \<Rightarrow> state" where
  "on_change change st =
     (let st1 = console_lines LOG [''--- New Document Inserted (Resumable)! ---'',
                  ''Operation Type:'', ''Full Document:''] st;
          st2 = st1\<lparr>lastResumeToken := Some (change_id change)\<rparr>
      in console_lines LOG [''Updated lastResumeToken to:'',
           ''--------------------------------------------''] st2)"

text \<open>
  The \<^verbatim>\<open>'change'\<close> handler when one of its five \<^verbatim>\<open>console.log\<close> calls throws: \<open>k\<close>
  calls have returned and the next one throws. The handler has no \<^verbatim>\<open>try\<close>, so nothing
  after the throwing call is run and the exception leaves the handler for the emitter
  that called it. The first three calls (lines 31-33) process the event; the assignment
  of line 35 is reached only when they have returned.
\<close>

definition on_change_throws :: "nat \<Rightarrow> change_event \<Rightarrow> state \<Rightarrow> state" where
  "on_change_throws k change st =
     (let st1 = console_lines LOG (take k [''--- New Document Inserted (Resumable)! ---'',
                  ''Operation Type:'', ''Full Document:'']) st
      in if k < 3 then st1
         else console_lines LOG (take (k - 3) [''Updated lastResumeToken to:'',
                ''--------------------------------------------''])
                (st1\<lparr>lastResumeToken := Some (change_id change)\<rparr>))"

text \<open>
  The \<^verbatim>\<open>'error'\<close> handler (lines 40-66) is an async function: it runs to the
  \<^verbatim>\<open>await\<close> of line 61 (\<open>on_error\<close>), and goes on from there when the close has
  settled (\<open>on_error_closed\<close>). A stream that is already closed is not awaited.
\<close>

definition on_error_retry :: "state \<Rightarrow> state" where
  "on_error_retry st =
     console_out ERROR ''------------------------------------'' (setTimeout 5000 st)"

definition on_error :: "nat \<Rightarrow> mongo_error \<Rightarrow> state \<Rightarrow> state" where
  "on_error changeStream error st =
     (let st1 = console_lines ERROR [''--- Mongoose Change Stream Error ---'',
                  ''Error Code:'', ''Error Message:''] st;
          st2 = (if codeName error = Some ''ChangeStreamHistoryLost''
                 then (console_out WARN
                   ''Change stream history lost (oplog rolled over). Restarting stream from scratch.''
                   st1)\<lparr>lastResumeToken := None\<rparr>
                 else console_out WARN
                   ''Attempting to re-establish change stream after error...'' st1)
      in if \<not> closed (streams st2 ! changeStream)
         then await (ErrorClose changeStream) (close_stream changeStream st2)
         else on_error_retry st2)"

definition on_error_closed :: "outcome \<Rightarrow> state \<Rightarrow> state" where
  "on_error_closed r st =
     on_error_retry (case r of
         Resolved \<Rightarrow> st
       | Rejected closeErr \<Rightarrow> console_out ERROR ''Error closing errored stream:'' st)"

text \<open>The \<^verbatim>\<open>'close'\<close> handler (lines 68-72) only prints.\<close>

definition on_close :: "state \<Rightarrow> state" where
  "on_close st = console_out LOG
     ''--- Mongoose Change Stream Closed (will attempt to re-establish if due to error) ---'' st"

section \<open>runMongooseResumableDemo (lines 79-111) and cleanup (lines 114-119)\<close>

definition demo_disconnect :: "state \<Rightarrow> state" where
  "demo_disconnect st =
     await FinallyDisconnect (console_out LOG ''Closing Mongoose connection...'' st)"

definition demo_finally :: "state \<Rightarrow> state" where
  "demo_finally st =
     (let st1 = console_out LOG ''Initiating shutdown process...'' st
      in case currentChangeStream st1 of
           None \<Rightarrow> demo_disconnect st1
         | Some cs \<Rightarrow>
             if \<not> closed (streams st1 ! cs)
             then await (FinallyClose cs)
                    (close_stream cs (console_out LOG ''Closing active change stream...'' st1))
             else demo_disconnect st1)"

definition demo_finally_closed :: "outcome \<Rightarrow> state \<Rightarrow> state" where
  "demo_finally_closed r st =
     demo_disconnect (case r of
         Resolved \<Rightarrow> st
       | Rejected e \<Rightarrow> console_out ERROR ''Error closing change stream on exit:'' st)"

text \<open>
  A rejected \<^verbatim>\<open>disconnect\<close> in the \<^verbatim>\<open>finally\<close> block rejects the demo's promise, which
  line 124 hands to \<^verbatim>\<open>console.error\<close>.
\<close>

definition demo_disconnected :: "outcome \<Rightarrow> state \<Rightarrow> state" where
  "demo_disconnected r st =
     (case r of
        Resolved \<Rightarrow> console_out LOG ''Mongoose connection closed.'' (st\<lparr>connected := False\<rparr>)
      | Rejected e \<Rightarrow> console_out ERROR e st)"

definition runMongooseResumableDemo :: "state \<Rightarrow> state" where
  "runMongooseResumableDemo st = await Connect (st\<lparr>started := True, currentChangeStream := None\<rparr>)"

text \<open>
  After \<^verbatim>\<open>mongoose.connect\<close> has settled. On success the function sets the stream up,
  prints its instructions and waits on a promise that never settles (line 97).
\<close>

definition demo_connected :: "outcome \<Rightarrow> state \<Rightarrow> state" where
  "demo_connected r st =
     (case r of
        Resolved \<Rightarrow>
          (let st1 = console_out LOG ''Successfully connected to MongoDB via Mongoose.''
                       (st\<lparr>connected := True\<rparr>);
               r = setupChangeStream st1;
               st2 = (fst r)\<lparr>currentChangeStream := Some (snd r)\<rparr>
           in console_lines LOG [''To test resumability:'', ''1. Insert some data.'',
                ''2. Stop the MongoDB primary node (or simulate a network partition).'',
                ''3. Observe error and reconnection attempt.'',
                ''4. Restart the MongoDB primary node.'',
                ''5. Insert more data after the stream re-establishes.'',
                ''Example insert (Mongo Shell): use '', ''db.insertOne'',
                ''Press Ctrl+C to stop the listener.''] st2)
      | Rejected err \<Rightarrow>
          demo_finally (console_out ERROR
            ''An error occurred during the Mongoose resumable demo:'' st))"

definition cleanup :: "string \<Rightarrow> state \<Rightarrow> state" where
  "cleanup signal st =
     await CleanupDisconnect (console_out LOG
       ''Received signal. Forcing exit for demo simplicity, but ensuring Mongoose disconnects.''
       st)"

definition cleanup_disconnected :: "outcome \<Rightarrow> state \<Rightarrow> state" where
  "cleanup_disconnected r st =
     process_exit 0 (case r of
         Resolved \<Rightarrow> st\<lparr>connected := False\<rparr>
       | Rejected err \<Rightarrow>
           console_out ERROR ''Error during Mongoose disconnect on shutdown signal:'' st)"

section \<open>The event loop\<close>

text \<open>
  What the runtime can deliver to the program, one at a time:
  the start of the script; a stream's \<^verbatim>\<open>'change'\<close>, \<^verbatim>\<open>'error'\<close> and \<^verbatim>\<open>'close'\<close>
  events; the settling of an awaited promise; the passing of time; a due timer; a
  process signal. \<open>StreamChangeThrows s change k\<close> is a \<^verbatim>\<open>'change'\<close> event during whose
  handling the \<^verbatim>\<open>console.log\<close> call after the first \<open>k\<close> throws.
\<close>

datatype event =
    ProgramStart
  | StreamChange nat change_event
  | StreamChangeThrows nat change_event nat
  | StreamError nat mongo_error
  | StreamClose nat
  | Settled pending outcome
  | TimePasses nat
  | TimerFires nat
  | ProcessSignal string

definition resume :: "pending \<Rightarrow> outcome \<Rightarrow> state \<Rightarrow> state" where
  "resume p r st =
     (case p of
        Connect \<Rightarrow> demo_connected r st
      | ErrorClose s \<Rightarrow> on_error_closed r st
      | CleanupDisconnect \<Rightarrow> cleanup_disconnected r st
      | FinallyClose s \<Rightarrow> demo_finally_closed r st
      | FinallyDisconnect \<Rightarrow> demo_disconnected r st)"

text \<open>
  \<open>step e st\<close> is \<open>None\<close> when the runtime cannot deliver \<open>e\<close> in \<open>st\<close>:
  nothing runs after \<^verbatim>\<open>process.exit\<close>; the script starts once; a stream delivers
  changes only while its handle is not closed, and its error at most once (the stream
  contract: events, then one error or close); a promise settles only if it is awaited; a
  timer fires only when its delay has passed. A \<^verbatim>\<open>'close'\<close> event finds the handle's
  \<^verbatim>\<open>closed\<close> property set. When an awaited \<^verbatim>\<open>close()\<close> settles, the runtime records it
  (\<open>settle\<close>) and the waiting function goes on. What the emitter does with an
  exception thrown by the \<^verbatim>\<open>'change'\<close> handler is not the program's: in the model the
  process goes on, and the emitter may report the failure as the stream's error.
\<close>

definition step :: "event \<Rightarrow> state \<Rightarrow> state option" where
  "step e st =
     (if exited st \<noteq> None then None
      else case e of
        ProgramStart \<Rightarrow>
          if started st then None else Some (runMongooseResumableDemo st)
      | StreamChange s change \<Rightarrow>
          if s < length (streams st) \<and> \<not> closed (streams st ! s)
          then Some (on_change change st) else None
      | StreamChangeThrows s change k \<Rightarrow>
          if s < length (streams st) \<and> \<not> closed (streams st ! s) \<and> k < 5
          then Some (on_change_throws k change st) else None
      | StreamError s err \<Rightarrow>
          if s < length (streams st) \<and> \<not> errored (streams st ! s)
          then Some (on_error s err (mark_errored s st)) else None
      | StreamClose s \<Rightarrow>
          if s < length (streams st) then Some (on_close (set_closed s st)) else None
      | Settled p r \<Rightarrow>
          if p \<in> set (awaiting st)
          then Some (resume p r ((settle p r st)\<lparr>awaiting := remove1 p (awaiting st)\<rparr>))
          else None
      | TimePasses n \<Rightarrow> Some (st\<lparr>now := now st + n\<rparr>)
      | TimerFires i \<Rightarrow>
          if i < length (timers st) \<and> set_at (timers st ! i) + delay (timers st ! i) \<le> now st
          then Some (fst (setupChangeStream
                 (st\<lparr>timers := take i (timers st) @ drop (Suc i) (timers st)\<rparr>)))
          else None
      | ProcessSignal sig \<Rightarrow> Some (cleanup sig st))"

fun run :: "event list \<Rightarrow> state \<Rightarrow> state option" where
  "run [] st = Some st"
| "run (e # es) st = (case step e st of None \<Rightarrow> None | Some st' \<Rightarrow> run es st')"

section \<open>Notions used to state the properties\<close>

text \<open>
  \<open>reachable st\<close>: the program can be in \<open>st\<close>, started from \<open>init\<close>, after a
  sequence of deliveries.
\<close>

definition reachable :: "state \<Rightarrow> bool" where
  "reachable st = (\<exists>tr. run tr init = Some st)"

text \<open>
  A session is open from the \<^verbatim>\<open>watch\<close> call until its handle is closed with no
  \<^verbatim>\<open>close()\<close> on it in flight and none rejected: a stream whose close was rejected is
  not known to be closed.
\<close>

definition session_open :: "state \<Rightarrow> nat \<Rightarrow> bool" where
  "session_open st i =
     (\<not> closed (streams st ! i) \<or> i \<in> set (closing st) \<or> i \<in> set (close_failed st))"

text \<open>
  The streams whose \<^verbatim>\<open>close()\<close> the program is waiting for, in the order of the calls.
  The calls in flight are exactly these: the program awaits every close it calls.
\<close>

fun close_targets :: "pending list \<Rightarrow> nat list" where
  "close_targets [] = []"
| "close_targets (ErrorClose s # ps) = s # close_targets ps"
| "close_targets (FinallyClose s # ps) = s # close_targets ps"
| "close_targets (p # ps) = close_targets ps"

definition closing_inv :: "state \<Rightarrow> bool" where
  "closing_inv st = (closing st = close_targets (awaiting st))"

text \<open>The number of \<^verbatim>\<open>console.warn\<close> lines printed so far.\<close>

definition warnings :: "state \<Rightarrow> nat" where
  "warnings st = length (filter (\<lambda>l. fst l = WARN) (console st))"

text \<open>
  What can still lead to a \<^verbatim>\<open>watch\<close> call: the script not yet started, the awaited
  connect, a stream that has not errored, a pending timer, an error handler waiting for
  its stream to close. The program keeps at most one of them.
\<close>

fun is_error_close :: "pending \<Rightarrow> bool" where
  "is_error_close (ErrorClose s) = True"
| "is_error_close p = False"

definition live :: "state \<Rightarrow> nat" where
  "live st = length (filter (\<lambda>s. \<not> errored s) (streams st))"

definition obligations :: "state \<Rightarrow> nat" where
  "obligations st =
     (if started st then 0 else 1) + count_list (awaiting st) Connect + live st
     + length (timers st) + length (filter is_error_close (awaiting st))"

definition scheduler_inv :: "state \<Rightarrow> bool" where
  "scheduler_inv st =
     (obligations st \<le> 1
      \<and> (\<forall>s \<in> set (streams st). errored s \<longrightarrow> closed s)
      \<and> (\<forall>t \<in> set (timers st). delay t = 5000)
      \<and> (\<forall>s. ErrorClose s \<in> set (awaiting st) \<longrightarrow> s < length (streams st))
      \<and> (\<forall>s. FinallyClose s \<notin> set (awaiting st))
      \<and> (Connect \<in> set (awaiting st) \<longrightarrow> currentChangeStream st = None))"

text \<open>
  Nothing is pending that could open a subscription by itself: the script has started
  and connected, no retry timer is set and no error handler waits for a close.
\<close>

definition idle :: "state \<Rightarrow> bool" where
  "idle st =
     (started st \<and> timers st = [] \<and> Connect \<notin> set (awaiting st)
      \<and> filter is_error_close (awaiting st) = [])"

fun is_stream_error :: "event \<Rightarrow> bool" where
  "is_stream_error (StreamError s err) = True"
| "is_stream_error e = False"

text \<open>Idle, and every stream handle is closed.\<close>

definition parked :: "state \<Rightarrow> bool" where
  "parked st = (idle st \<and> (\<forall>s \<in> set (streams st). closed s))"

text \<open>Between an error and the next subscription every stream is errored and closed.\<close>

definition recovering :: "state \<Rightarrow> bool" where
  "recovering st = (\<forall>s \<in> set (streams st). errored s \<and> closed s)"

section \<open>The specification's words, for comparison with the code\<close>

text \<open>
  The specification's three dispositions and its classifier (section 4.1): history loss
  by the error's code name, the connectivity failures by the codes the source lists in
  its comment (lines 46-48), everything else fatal. The program itself has only the
  test of line 53.
\<close>

datatype disposition = Transient | HistoryLost | Fatal

definition spec_classify :: "mongo_error \<Rightarrow> disposition" where
  "spec_classify e =
     (if codeName e = Some ''ChangeStreamHistoryLost'' then HistoryLost
      else case code e of
             None \<Rightarrow> Fatal
           | Some c \<Rightarrow> if c \<in> set [6, 7, 89, 91, 189, 262, 13436, 13435] then Transient else Fatal)"


section \<open>Concrete inputs\<close>

definition evA :: change_event where
  "evA = \<lparr>operationType = ''insert'', change_id = ResumeToken ''A'', fullDocument = ''a''\<rparr>"

definition evB :: change_event where
  "evB = \<lparr>operationType = ''insert'', change_id = ResumeToken ''B'', fullDocument = ''b''\<rparr>"

definition evC :: change_event where
  "evC = \<lparr>operationType = ''insert'', change_id = ResumeToken ''C'', fullDocument = ''c''\<rparr>"

definition evD :: change_event where
  "evD = \<lparr>operationType = ''insert'', change_id = ResumeToken ''D'', fullDocument = ''d''\<rparr>"

text \<open>An exception of the \<^verbatim>\<open>'change'\<close> handler, reported by the emitter as a stream error.\<close>

definition callback_error :: mongo_error where
  "callback_error = \<lparr>code = None, codeName = None, message = ''handler threw''\<rparr>"

definition timeout_error :: mongo_error where
  "timeout_error =
     \<lparr>code = Some 89, codeName = Some ''NetworkTimeout'', message = ''timed out''\<rparr>"

definition history_lost_error :: mongo_error where
  "history_lost_error =
     \<lparr>code = Some 286, codeName = Some ''ChangeStreamHistoryLost'',
      message = ''resume point may no longer be in the oplog''\<rparr>"

definition unauthorized_error :: mongo_error where
  "unauthorized_error =
     \<lparr>code = Some 13, codeName = Some ''Unauthorized'', message = ''not authorized''\<rparr>"

text \<open>The script started and connected: one stream is open, opened from scratch.\<close>

definition streaming :: "event list" where
  "streaming = [ProgramStart, Settled Connect Resolved]"

section \<open>The scheduler's invariant\<close>

lemma filter_le1_unique:
  "length (filter P xs) \<le> 1 \<Longrightarrow> x \<in> set xs \<Longrightarrow> y \<in> set xs \<Longrightarrow> P x \<Longrightarrow> P y \<Longrightarrow> x = y"
  by (induction xs) (auto split: if_splits simp: filter_empty_conv)

lemma filter_update_drop:
  "i < length xs \<Longrightarrow> P (xs ! i) \<Longrightarrow> \<not> P y \<Longrightarrow>
     Suc (length (filter P (xs[i := y]))) = length (filter P xs)"
  by (induction xs arbitrary: i) (auto split: nat.splits)

lemma filter_update_same:
  "i < length xs \<Longrightarrow> P (xs ! i) = P y \<Longrightarrow>
     length (filter P (xs[i := y])) = length (filter P xs)"
  by (induction xs arbitrary: i) (auto split: nat.splits)

lemmas runtime_defs = console_out_def console_lines_def await_def setTimeout_def
  process_exit_def set_closed_def close_stream_def close_settled_def settle_def
  mark_errored_def watch_def

lemma count_remove1: "x \<in> set xs \<Longrightarrow> Suc (count_list (remove1 x xs) x) = count_list xs x"
  by (induction xs) auto

lemma count_remove1_other: "x \<noteq> y \<Longrightarrow> count_list (remove1 x xs) y = count_list xs y"
  by (induction xs) auto

lemma filter_remove1_in:
  "x \<in> set xs \<Longrightarrow> P x \<Longrightarrow> Suc (length (filter P (remove1 x xs))) = length (filter P xs)"
  by (induction xs) auto

lemma filter_remove1_out:
  "\<not> P x \<Longrightarrow> filter P (remove1 x xs) = filter P xs"
  by (induction xs) auto

lemma settle_fields:
  "streams (settle p r st) = streams st"
  "timers (settle p r st) = timers st"
  "awaiting (settle p r st) = awaiting st"
  "lastResumeToken (settle p r st) = lastResumeToken st"
  "console (settle p r st) = console st"
  "exited (settle p r st) = exited st"
  "started (settle p r st) = started st"
  "now (settle p r st) = now st"
  "connected (settle p r st) = connected st"
  "currentChangeStream (settle p r st) = currentChangeStream st"
  by (cases p; cases r; simp add: settle_def close_settled_def)+

lemma settle_preds:
  "scheduler_inv (settle p r st) = scheduler_inv st"
  "recovering (settle p r st) = recovering st"
  "idle (settle p r st) = idle st"
  "parked (settle p r st) = parked st"
  "warnings (settle p r st) = warnings st"
  by (simp_all add: scheduler_inv_def obligations_def live_def recovering_def idle_def
      parked_def warnings_def settle_fields)

lemma settled_step:
  assumes "step (Settled p r) st = Some st'"
  shows "p \<in> set (awaiting (settle p r st))" and "exited st = None"
    and "st' = resume p r
           ((settle p r st)\<lparr>awaiting := remove1 p (awaiting (settle p r st))\<rparr>)"
  using assms by (auto simp: step_def settle_fields split: if_splits)

lemma on_change_throws_fields:
  "lastResumeToken (on_change_throws k c st)
     = (if k < 3 then lastResumeToken st else Some (change_id c))"
  "streams (on_change_throws k c st) = streams st"
  "timers (on_change_throws k c st) = timers st"
  "awaiting (on_change_throws k c st) = awaiting st"
  "exited (on_change_throws k c st) = exited st"
  "started (on_change_throws k c st) = started st"
  "currentChangeStream (on_change_throws k c st) = currentChangeStream st"
  "closing (on_change_throws k c st) = closing st"
  "close_failed (on_change_throws k c st) = close_failed st"
  by (simp_all add: on_change_throws_def console_lines_def Let_def)

lemma warnings_console_lines: "l \<noteq> WARN \<Longrightarrow> warnings (console_lines l ms st) = warnings st"
  by (simp add: warnings_def console_lines_def filter_map comp_def)

lemma warnings_on_change_throws: "warnings (on_change_throws k c st) = warnings st"
  by (simp add: on_change_throws_def Let_def warnings_console_lines)
     (simp add: warnings_def console_lines_def filter_map comp_def)

lemma inv_change_throws: "scheduler_inv st \<Longrightarrow> scheduler_inv (on_change_throws k c st)"
  by (simp add: scheduler_inv_def obligations_def live_def on_change_throws_fields)

lemma inv_init: "scheduler_inv init"
  by (simp add: scheduler_inv_def obligations_def live_def init_def)

lemma inv_change:
  assumes "scheduler_inv st"
  shows "scheduler_inv (on_change c st)"
  using assms
  by (simp add: scheduler_inv_def obligations_def live_def on_change_def runtime_defs Let_def)

lemma inv_close:
  assumes "scheduler_inv st" "s < length (streams st)"
  shows "scheduler_inv (on_close (set_closed s st))"
proof -
  have l: "live (on_close (set_closed s st)) = live st"
    using assms(2) by (simp add: live_def on_close_def runtime_defs filter_update_same)
  have "\<forall>x \<in> set (streams (on_close (set_closed s st))). errored x \<longrightarrow> closed x"
    using assms by (auto simp: scheduler_inv_def on_close_def runtime_defs set_conv_nth nth_list_update)
  then show ?thesis using assms l
    by (simp add: scheduler_inv_def obligations_def on_close_def runtime_defs)
qed


lemma inv_error:
  assumes "scheduler_inv st" "s < length (streams st)" "\<not> errored (streams st ! s)"
  shows "scheduler_inv (on_error s err (mark_errored s st))"
proof -
  let ?st' = "on_error s err (mark_errored s st)"
  have live: "Suc (live (mark_errored s st)) = live st"
    using assms(2,3) by (simp add: live_def mark_errored_def filter_update_drop)
  have streams': "streams ?st' = (streams st)[s := (streams st ! s)\<lparr>errored := True, closed := True\<rparr>]"
    using assms(2)
    by (auto simp: on_error_def on_error_retry_def runtime_defs Let_def list_update_same_conv
          intro!: nth_equalityI simp: nth_list_update)
  have live': "Suc (live ?st') = live st"
    unfolding live_def streams' using assms(2,3) by (simp add: filter_update_drop)
  have other: "started ?st' = started st" "currentChangeStream ?st' = currentChangeStream st"
    "count_list (awaiting ?st') Connect = count_list (awaiting st) Connect"
    by (simp_all add: on_error_def on_error_retry_def runtime_defs Let_def)
  have sched: "length (timers ?st') + length (filter is_error_close (awaiting ?st'))
      = Suc (length (timers st) + length (filter is_error_close (awaiting st)))"
    by (simp add: on_error_def on_error_retry_def runtime_defs Let_def)
  have ob: "obligations ?st' = obligations st"
    using live' other sched by (simp add: obligations_def)
  have closed: "\<forall>x \<in> set (streams ?st'). errored x \<longrightarrow> closed x"
    unfolding streams' using assms(1,2)
    by (auto simp: scheduler_inv_def set_conv_nth nth_list_update)
  have tm: "\<forall>t \<in> set (timers ?st'). delay t = 5000"
    using assms(1) by (auto simp: scheduler_inv_def on_error_def on_error_retry_def runtime_defs Let_def)
  have aw: "set (awaiting ?st') \<subseteq> insert (ErrorClose s) (set (awaiting st))"
    by (auto simp: on_error_def on_error_retry_def runtime_defs Let_def)
  have len: "length (streams ?st') = length (streams st)"
    unfolding streams' by simp
  have aw1: "\<forall>i. ErrorClose i \<in> set (awaiting ?st') \<longrightarrow> i < length (streams ?st')"
    using aw assms(1,2) unfolding len by (auto simp: scheduler_inv_def)
  have aw2: "\<forall>i. FinallyClose i \<notin> set (awaiting ?st')"
    using aw assms(1) by (auto simp: scheduler_inv_def)
  have aw3: "Connect \<in> set (awaiting ?st') \<longrightarrow> currentChangeStream ?st' = None"
    using aw assms(1) other by (auto simp: scheduler_inv_def)
  show ?thesis
    unfolding scheduler_inv_def using ob assms(1) closed tm aw1 aw2 aw3
    by (simp add: scheduler_inv_def)
qed


lemma inv_setup:
  assumes "obligations st = 0"
    "\<forall>s \<in> set (streams st). errored s \<longrightarrow> closed s"
    "\<forall>t \<in> set (timers st). delay t = 5000"
    "\<forall>s. ErrorClose s \<in> set (awaiting st) \<longrightarrow> s < length (streams st)"
    "\<forall>s. FinallyClose s \<notin> set (awaiting st)"
    "Connect \<notin> set (awaiting st)"
  shows "scheduler_inv (fst (setupChangeStream st))"
  using assms
  by (auto simp: scheduler_inv_def obligations_def live_def setupChangeStream_def runtime_defs
      Let_def)

lemma inv_fire:
  assumes "scheduler_inv st" "i < length (timers st)"
  shows "scheduler_inv (fst (setupChangeStream
           (st\<lparr>timers := take i (timers st) @ drop (Suc i) (timers st)\<rparr>)))"
proof (rule inv_setup)
  let ?st = "st\<lparr>timers := take i (timers st) @ drop (Suc i) (timers st)\<rparr>"
  have "Suc (length (timers ?st)) = length (timers st)" using assms(2) by simp
  moreover have "obligations st \<le> 1" using assms(1) by (simp add: scheduler_inv_def)
  moreover have "obligations ?st + length (timers st) = obligations st + length (timers ?st)"
    by (simp add: obligations_def live_def)
  ultimately show "obligations ?st = 0" by linarith
  then show "Connect \<notin> set (awaiting ?st)"
    by (auto simp: obligations_def count_list_0_iff)
  show "\<forall>t \<in> set (timers ?st). delay t = 5000"
    using assms(1) by (auto simp: scheduler_inv_def dest: in_set_takeD in_set_dropD)
qed (use assms(1) in \<open>simp_all add: scheduler_inv_def\<close>)

lemma inv_error_closed:
  assumes "scheduler_inv st" "ErrorClose s \<in> set (awaiting st)"
  shows "scheduler_inv (on_error_closed r (st\<lparr>awaiting := remove1 (ErrorClose s) (awaiting st)\<rparr>))"
proof -
  let ?st' = "on_error_closed r (st\<lparr>awaiting := remove1 (ErrorClose s) (awaiting st)\<rparr>)"
  have f: "streams ?st' = streams st" "started ?st' = started st"
    "currentChangeStream ?st' = currentChangeStream st"
    "awaiting ?st' = remove1 (ErrorClose s) (awaiting st)"
    "length (timers ?st') = Suc (length (timers st))"
    "set (timers ?st') = insert \<lparr>set_at = now st, delay = 5000\<rparr> (set (timers st))"
    by (cases r; simp add: on_error_closed_def on_error_retry_def runtime_defs)+
  have "Suc (length (filter is_error_close (awaiting ?st')))
      = length (filter is_error_close (awaiting st))"
    unfolding f using assms(2) by (simp add: filter_remove1_in)
  moreover have "count_list (awaiting ?st') Connect = count_list (awaiting st) Connect"
    unfolding f by (simp add: count_remove1_other)
  ultimately have "obligations ?st' = obligations st"
    using f by (simp add: obligations_def live_def)
  moreover have "set (awaiting ?st') \<subseteq> set (awaiting st)"
    unfolding f by (rule set_remove1_subset)
  ultimately show ?thesis
    using assms(1) f unfolding scheduler_inv_def by auto
qed

lemma inv_start:
  assumes "scheduler_inv st" "\<not> started st"
  shows "scheduler_inv (runMongooseResumableDemo st)"
  using assms
  by (auto simp: scheduler_inv_def obligations_def live_def runMongooseResumableDemo_def runtime_defs)

lemma inv_time: "scheduler_inv st \<Longrightarrow> scheduler_inv (st\<lparr>now := now st + n\<rparr>)"
  by (simp add: scheduler_inv_def obligations_def live_def)

lemma inv_cleanup: "scheduler_inv st \<Longrightarrow> scheduler_inv (cleanup sig st)"
  by (auto simp: scheduler_inv_def obligations_def live_def cleanup_def runtime_defs)

lemma inv_remove_plain:
  assumes "scheduler_inv st" "p \<in> set (awaiting st)" "p \<noteq> Connect" "\<not> is_error_close p"
  shows "scheduler_inv (st\<lparr>awaiting := remove1 p (awaiting st)\<rparr>)"
proof -
  have "set (remove1 p (awaiting st)) \<subseteq> set (awaiting st)" by (rule set_remove1_subset)
  then show ?thesis
    using assms unfolding scheduler_inv_def
    by (auto simp: obligations_def live_def count_remove1_other filter_remove1_out)
qed

lemma inv_console: "scheduler_inv st \<Longrightarrow> scheduler_inv (console_out l m st)"
  by (simp add: scheduler_inv_def obligations_def live_def console_out_def)

lemma inv_plain_await:
  "scheduler_inv st \<Longrightarrow> p = FinallyDisconnect \<or> p = CleanupDisconnect \<Longrightarrow> scheduler_inv (await p st)"
  by (auto simp: scheduler_inv_def obligations_def live_def await_def)

lemma inv_cleanup_disconnected:
  "scheduler_inv st \<Longrightarrow> scheduler_inv (cleanup_disconnected r st)"
  by (cases r) (simp_all add: scheduler_inv_def obligations_def live_def cleanup_disconnected_def
      runtime_defs)

lemma inv_demo_disconnected:
  "scheduler_inv st \<Longrightarrow> scheduler_inv (demo_disconnected r st)"
  by (cases r) (simp_all add: scheduler_inv_def obligations_def live_def demo_disconnected_def
      runtime_defs)

lemma inv_demo_disconnect:
  "scheduler_inv st \<Longrightarrow> scheduler_inv (demo_disconnect st)"
  by (simp add: demo_disconnect_def inv_plain_await inv_console)

lemma inv_demo_finally_closed:
  "scheduler_inv st \<Longrightarrow> scheduler_inv (demo_finally_closed r st)"
  by (cases r) (simp_all add: demo_finally_closed_def inv_demo_disconnect inv_console)

lemma current_console_out: "currentChangeStream (console_out l m st) = currentChangeStream st"
  by (simp add: console_out_def)

lemma inv_demo_finally:
  "scheduler_inv st \<Longrightarrow> currentChangeStream st = None \<Longrightarrow> scheduler_inv (demo_finally st)"
  by (simp add: demo_finally_def Let_def current_console_out inv_demo_disconnect inv_console)


lemma inv_console_lines: "scheduler_inv st \<Longrightarrow> scheduler_inv (console_lines l ms st)"
  by (simp add: scheduler_inv_def obligations_def live_def console_lines_def)

lemma inv_set_current:
  "scheduler_inv st \<Longrightarrow> Connect \<notin> set (awaiting st) \<Longrightarrow>
     scheduler_inv (st\<lparr>currentChangeStream := c\<rparr>)"
  by (simp add: scheduler_inv_def obligations_def live_def)

lemma awaiting_setup: "awaiting (fst (setupChangeStream st)) = awaiting st"
  by (simp add: setupChangeStream_def runtime_defs Let_def)

lemma inv_connected:
  assumes "scheduler_inv st" "Connect \<in> set (awaiting st)"
  shows "scheduler_inv (demo_connected r (st\<lparr>awaiting := remove1 Connect (awaiting st)\<rparr>))"
proof -
  let ?st = "st\<lparr>awaiting := remove1 Connect (awaiting st)\<rparr>"
  have c: "Suc (count_list (awaiting ?st) Connect) = count_list (awaiting st) Connect"
    using count_remove1[OF assms(2)] by simp
  have f: "filter is_error_close (awaiting ?st) = filter is_error_close (awaiting st)"
    by (simp add: filter_remove1_out)
  have ob: "Suc (obligations ?st) = obligations st"
    using c f by (simp add: obligations_def live_def)
  then have ob0: "obligations ?st = 0"
    using assms(1) by (simp add: scheduler_inv_def)
  have "count_list (awaiting ?st) Connect = 0"
    using ob0 unfolding obligations_def by linarith
  then have nc: "Connect \<notin> set (awaiting ?st)"
    by (metis count_list_0_iff)
  have sub: "set (awaiting ?st) \<subseteq> set (awaiting st)"
    by (simp add: set_remove1_subset)
  have cur: "currentChangeStream ?st = None"
    using assms by (simp add: scheduler_inv_def)
  have inv: "scheduler_inv ?st"
    using assms(1) ob0 sub nc unfolding scheduler_inv_def by auto
  show ?thesis
  proof (cases r)
    case Resolved
    let ?st1 = "console_out LOG ''Successfully connected to MongoDB via Mongoose.''
                  (?st\<lparr>connected := True\<rparr>)"
    have "scheduler_inv (fst (setupChangeStream ?st1))"
    proof (rule inv_setup)
      show "obligations ?st1 = 0"
        using ob0 by (simp add: obligations_def live_def console_out_def)
      show "Connect \<notin> set (awaiting ?st1)"
        using nc by (simp add: console_out_def)
    qed (use inv in \<open>simp_all add: scheduler_inv_def console_out_def\<close>)
    moreover have "Connect \<notin> set (awaiting (fst (setupChangeStream ?st1)))"
      using nc by (simp add: awaiting_setup console_out_def)
    ultimately show ?thesis
      using Resolved by (simp add: demo_connected_def Let_def inv_console_lines inv_set_current)
  next
    case (Rejected e)
    have "scheduler_inv (demo_finally (console_out ERROR
            ''An error occurred during the Mongoose resumable demo:'' ?st))"
      by (rule inv_demo_finally) (use inv cur in \<open>simp_all add: inv_console current_console_out\<close>)
    then show ?thesis using Rejected by (simp add: demo_connected_def)
  qed
qed

lemma inv_step:
  assumes "scheduler_inv st" "step e st = Some st'"
  shows "scheduler_inv st'"
proof (cases e)
  case ProgramStart
  then show ?thesis using assms by (auto simp: step_def inv_start split: if_splits)
next
  case (StreamChange s c)
  then show ?thesis using assms by (auto simp: step_def inv_change split: if_splits)
next
  case (StreamChangeThrows s c k)
  then show ?thesis using assms by (auto simp: step_def inv_change_throws split: if_splits)
next
  case (StreamError s err)
  then show ?thesis using assms by (auto simp: step_def inv_error split: if_splits)
next
  case (StreamClose s)
  then show ?thesis using assms by (auto simp: step_def inv_close split: if_splits)
next
  case (Settled p r)
  define X where "X = settle p r st"
  from settled_step[of p r st st'] Settled assms(2)
  have in_aw: "p \<in> set (awaiting X)"
    and st': "st' = resume p r (X\<lparr>awaiting := remove1 p (awaiting X)\<rparr>)"
    by (simp_all add: X_def)
  have inv: "scheduler_inv X" using assms(1) by (simp add: X_def settle_preds)
  show ?thesis
  proof (cases p)
    case Connect
    then show ?thesis using inv in_aw st' by (simp add: resume_def inv_connected)
  next
    case (ErrorClose s)
    then show ?thesis using inv in_aw st' by (simp add: resume_def inv_error_closed)
  next
    case CleanupDisconnect
    then show ?thesis using inv in_aw st'
      by (simp add: resume_def inv_cleanup_disconnected inv_remove_plain)
  next
    case (FinallyClose s)
    then show ?thesis using inv in_aw st'
      by (simp add: resume_def inv_demo_finally_closed inv_remove_plain)
  next
    case FinallyDisconnect
    then show ?thesis using inv in_aw st'
      by (simp add: resume_def inv_demo_disconnected inv_remove_plain)
  qed
next
  case (TimePasses n)
  then show ?thesis using assms by (auto simp: step_def inv_time split: if_splits)
next
  case (TimerFires i)
  then show ?thesis using assms by (auto simp: step_def inv_fire split: if_splits)
next
  case (ProcessSignal sig)
  then show ?thesis using assms by (auto simp: step_def inv_cleanup split: if_splits)
qed

lemma inv_run: "scheduler_inv st \<Longrightarrow> run tr st = Some st' \<Longrightarrow> scheduler_inv st'"
  by (induction tr arbitrary: st) (auto split: option.splits dest: inv_step)

lemma inv_reachable: "reachable st \<Longrightarrow> scheduler_inv st"
  unfolding reachable_def using inv_run inv_init by blast

section \<open>What a delivery changes\<close>

lemma filter_le1_index:
  "length (filter P xs) \<le> 1 \<Longrightarrow> i < length xs \<Longrightarrow> j < length xs \<Longrightarrow> P (xs ! i) \<Longrightarrow> P (xs ! j)
     \<Longrightarrow> i = j"
proof (induction xs arbitrary: i j)
  case Nil then show ?case by simp
next
  case (Cons a xs)
  show ?case
  proof (cases "P a")
    case True
    with Cons.prems have e: "filter P xs = []" by simp
    have z: "k = 0" if "k < length (a # xs)" "P ((a # xs) ! k)" for k
    proof (rule ccontr)
      assume "k \<noteq> 0"
      then obtain k' where "k = Suc k'" by (cases k) auto
      with that have "k' < length xs" "P (xs ! k')" by auto
      then have "xs ! k' \<in> set (filter P xs)" by simp
      with e show False by simp
    qed
    from z[of i] z[of j] Cons.prems show ?thesis by simp
  next
    case False
    with Cons.prems obtain i' j' where "i = Suc i'" "j = Suc j'"
      by (cases i; cases j) auto
    with Cons False show ?thesis by auto
  qed
qed

text \<open>What a handler leaves alone.\<close>

lemma setup_fields:
  "streams (fst (setupChangeStream st)) =
     streams st @ [\<lparr>pipeline = [(''operationType'', ''insert'')],
       options = watch_options_of (lastResumeToken st), closed = False, errored = False\<rparr>]"
  "lastResumeToken (fst (setupChangeStream st)) = lastResumeToken st"
  "warnings (fst (setupChangeStream st)) = warnings st"
  "timers (fst (setupChangeStream st)) = timers st"
  "exited (fst (setupChangeStream st)) = exited st"
  "now (fst (setupChangeStream st)) = now st"
  by (simp_all add: setupChangeStream_def runtime_defs warnings_def Let_def)


lemma resume_plain_fields:
  assumes "p \<noteq> Connect"
  shows "streams (resume p r st) = streams st"
    "lastResumeToken (resume p r st) = lastResumeToken st"
    "warnings (resume p r st) = warnings st"
  using assms
  by (cases p; cases r;
      simp add: resume_def on_error_closed_def on_error_retry_def cleanup_disconnected_def
        demo_finally_closed_def demo_disconnected_def demo_disconnect_def runtime_defs
        warnings_def)+









lemma on_close_fields:
  "lastResumeToken (on_close (set_closed s st)) = lastResumeToken st"
  "warnings (on_close (set_closed s st)) = warnings st"
  "timers (on_close (set_closed s st)) = timers st"
  "awaiting (on_close (set_closed s st)) = awaiting st"
  "exited (on_close (set_closed s st)) = exited st"
  "length (streams (on_close (set_closed s st))) = length (streams st)"
  by (simp_all add: on_close_def runtime_defs warnings_def)





lemma console_out_fields:
  "lastResumeToken (console_out l m st) = lastResumeToken st"
  "streams (console_out l m st) = streams st"
  "l \<noteq> WARN \<Longrightarrow> warnings (console_out l m st) = warnings st"
  by (simp_all add: console_out_def warnings_def)





lemmas handler_defs = setupChangeStream_def watch_options_of_def on_change_def on_error_def
  on_error_retry_def on_error_closed_def on_close_def demo_disconnect_def demo_finally_def
  demo_finally_closed_def demo_disconnected_def runMongooseResumableDemo_def demo_connected_def
  cleanup_def cleanup_disconnected_def resume_def step_def init_def Let_def
  on_change_throws_def

lemmas input_defs = evA_def evB_def evC_def evD_def callback_error_def timeout_error_def history_lost_error_def
  unauthorized_error_def streaming_def

lemma reachableI: "run tr init = Some st \<Longrightarrow> reachable st"
  unfolding reachable_def by blast

section \<open>Recovery after a stream error\<close>





section \<open>Errors of every kind are retried\<close>

lemma live_positive:
  "s < length xs \<Longrightarrow> P (xs ! s) \<Longrightarrow> 1 \<le> length (filter P xs)"
  by (metis One_nat_def Suc_leI filter_empty_conv length_greater_0_conv nth_mem)

lemma live_idle:
  assumes "scheduler_inv st" "s < length (streams st)" "\<not> errored (streams st ! s)"
  shows "idle st"
    and "\<forall>j < length (streams st). j \<noteq> s \<longrightarrow> errored (streams st ! j) \<and> closed (streams st ! j)"
proof -
  have l: "1 \<le> live st"
    unfolding live_def using live_positive[of s "streams st" "\<lambda>x. \<not> errored x"] assms(2,3) by simp
  have o: "obligations st \<le> 1" using assms(1) by (simp add: scheduler_inv_def)
  have st: "started st"
    using l o by (cases "started st") (simp_all add: obligations_def)
  with o have "count_list (awaiting st) Connect + live st + length (timers st)
      + length (filter is_error_close (awaiting st)) \<le> 1"
    by (simp add: obligations_def)
  with l have z: "count_list (awaiting st) Connect = 0" "length (timers st) = 0"
    "length (filter is_error_close (awaiting st)) = 0" and l1: "live st \<le> 1"
    by linarith+
  from z(1) have "Connect \<notin> set (awaiting st)" by (metis count_list_0_iff)
  with st z(2,3) show "idle st" by (simp add: idle_def)
  show "\<forall>j < length (streams st). j \<noteq> s \<longrightarrow> errored (streams st ! j) \<and> closed (streams st ! j)"
  proof (intro allI impI)
    fix j assume j: "j < length (streams st)" "j \<noteq> s"
    have "length (filter (\<lambda>x. \<not> errored x) (streams st)) \<le> 1"
      using l1 by (simp add: live_def)
    from filter_le1_index[OF this j(1) assms(2) _ assms(3)] j(2)
    have "errored (streams st ! j)" by blast
    then show "errored (streams st ! j) \<and> closed (streams st ! j)"
      using assms(1) j(1) by (auto simp: scheduler_inv_def)
  qed
qed

lemma timer_fires:
  assumes "exited st = None" "i < length (timers st)"
    "set_at (timers st ! i) + delay (timers st ! i) \<le> now st"
  shows "\<exists>st'. step (TimerFires i) st = Some st' \<and> exited st' = None
    \<and> length (streams st') = Suc (length (streams st))
    \<and> options (last (streams st')) = watch_options_of (lastResumeToken st)"
  using assms by (simp add: step_def setup_fields)

lemma on_error_fields:
  "exited (on_error s err st) = exited st"
  "now (on_error s err st) = now st"
  "length (streams (on_error s err st)) = length (streams st)"
  "closed (streams st ! s) \<Longrightarrow> timers (on_error s err st) = timers st @ [\<lparr>set_at = now st, delay = 5000\<rparr>]"
  "closed (streams st ! s) \<Longrightarrow> awaiting (on_error s err st) = awaiting st"
  "\<not> closed (streams st ! s) \<Longrightarrow> timers (on_error s err st) = timers st"
  "\<not> closed (streams st ! s) \<Longrightarrow> awaiting (on_error s err st) = awaiting st @ [ErrorClose s]"
  "\<exists>rest. console (on_error s err st) = console st @
     [(ERROR, ''--- Mongoose Change Stream Error ---''), (ERROR, ''Error Code:''),
      (ERROR, ''Error Message:'')] @ rest"
  by (simp_all add: on_error_def on_error_retry_def runtime_defs Let_def)

lemma mark_errored_fields:
  "exited (mark_errored s st) = exited st"
  "now (mark_errored s st) = now st"
  "timers (mark_errored s st) = timers st"
  "awaiting (mark_errored s st) = awaiting st"
  "console (mark_errored s st) = console st"
  "length (streams (mark_errored s st)) = length (streams st)"
  "s < length (streams st) \<Longrightarrow> closed (streams (mark_errored s st) ! s) = closed (streams st ! s)"
  by (simp_all add: mark_errored_def)

lemma on_error_closed_fields:
  "exited (on_error_closed r st) = exited st"
  "now (on_error_closed r st) = now st"
  "length (streams (on_error_closed r st)) = length (streams st)"
  "lastResumeToken (on_error_closed r st) = lastResumeToken st"
  "timers (on_error_closed r st) = timers st @ [\<lparr>set_at = now st, delay = 5000\<rparr>]"
  by (cases r; simp add: on_error_closed_def on_error_retry_def runtime_defs)+

text \<open>
  C3, as the code has it. Every stream error, whatever its kind (an authorization failure
  and a malformed filter included), is handled alike: the handler prints the error's code
  and message with \<^verbatim>\<open>console.error\<close>, closes the stream if it is not closed, and sets
  the retry timer; the process goes on, and when the close has settled (resolved or
  rejected) and 5000 ms have passed the timer opens a new subscription from the
  checkpoint the handler left. There is no fatal disposition and no stopped state.
\<close>

theorem every_error_schedules_a_retry:
  assumes "reachable st" and "step (StreamError s err) st = Some st1"
  shows "exited st1 = None
    \<and> (\<exists>rest. console st1 = console st @
          [(ERROR, ''--- Mongoose Change Stream Error ---''), (ERROR, ''Error Code:''),
           (ERROR, ''Error Message:'')] @ rest)
    \<and> (\<forall>r. \<exists>st3.
          run ((if closed (streams st ! s) then [] else [Settled (ErrorClose s) r])
               @ [TimePasses 5000, TimerFires 0]) st1 = Some st3
          \<and> exited st3 = None
          \<and> length (streams st3) = Suc (length (streams st))
          \<and> options (last (streams st3)) = watch_options_of (lastResumeToken st1))"
proof -
  from assms(2) have s: "s < length (streams st)" "\<not> errored (streams st ! s)"
    and ex: "exited st = None"
    and st1: "st1 = on_error s err (mark_errored s st)"
    by (auto simp: step_def split: if_splits)
  have "idle st" using live_idle(1)[OF inv_reachable[OF assms(1)] s] .
  then have t0: "timers st = []" by (simp add: idle_def)
  have ex1: "exited st1 = None"
    unfolding st1 using ex by (simp add: on_error_fields mark_errored_fields)
  have con: "\<exists>rest. console st1 = console st @
          [(ERROR, ''--- Mongoose Change Stream Error ---''), (ERROR, ''Error Code:''),
           (ERROR, ''Error Message:'')] @ rest"
    unfolding st1 using on_error_fields(8)[of s err "mark_errored s st"]
    by (simp add: mark_errored_fields)
  have retry: "\<exists>st3.
          run ((if closed (streams st ! s) then [] else [Settled (ErrorClose s) r])
               @ [TimePasses 5000, TimerFires 0]) st1 = Some st3
          \<and> exited st3 = None
          \<and> length (streams st3) = Suc (length (streams st))
          \<and> options (last (streams st3)) = watch_options_of (lastResumeToken st1)" for r
  proof (cases "closed (streams st ! s)")
    case True
    then have c: "closed (streams (mark_errored s st) ! s)"
      using s(1) by (simp add: mark_errored_fields)
    let ?st2 = "st1\<lparr>now := now st1 + 5000\<rparr>"
    have t1: "timers st1 = [\<lparr>set_at = now st, delay = 5000\<rparr>]" "now st1 = now st"
      "length (streams st1) = length (streams st)"
      unfolding st1 using c t0 by (simp_all add: on_error_fields mark_errored_fields)
    have a: "step (TimePasses 5000) st1 = Some ?st2"
      using ex1 by (simp add: step_def)
    have "\<exists>st'. step (TimerFires 0) ?st2 = Some st' \<and> exited st' = None
      \<and> length (streams st') = Suc (length (streams ?st2))
      \<and> options (last (streams st')) = watch_options_of (lastResumeToken ?st2)"
      by (rule timer_fires) (use ex1 t1 in simp_all)
    then show ?thesis using True a t1 by auto
  next
    case False
    then have c: "\<not> closed (streams (mark_errored s st) ! s)"
      using s(1) by (simp add: mark_errored_fields)
    have aw: "ErrorClose s \<in> set (awaiting st1)" "timers st1 = []" "now st1 = now st"
      "length (streams st1) = length (streams st)"
      unfolding st1 using c t0 by (simp_all add: on_error_fields mark_errored_fields)
    let ?st2 = "on_error_closed r
      ((settle (ErrorClose s) r st1)\<lparr>awaiting := remove1 (ErrorClose s) (awaiting st1)\<rparr>)"
    let ?st2' = "?st2\<lparr>now := now ?st2 + 5000\<rparr>"
    have a: "step (Settled (ErrorClose s) r) st1 = Some ?st2"
      using ex1 aw by (simp add: step_def resume_def)
    have t2: "timers ?st2 = [\<lparr>set_at = now st, delay = 5000\<rparr>]" "exited ?st2 = None"
      "now ?st2 = now st" "length (streams ?st2) = length (streams st)"
      "lastResumeToken ?st2 = lastResumeToken st1"
      using aw ex1 by (simp_all add: on_error_closed_fields settle_fields)
    have b: "step (TimePasses 5000) ?st2 = Some ?st2'"
      using t2 by (simp add: step_def)
    have "\<exists>st'. step (TimerFires 0) ?st2' = Some st' \<and> exited st' = None
      \<and> length (streams st') = Suc (length (streams ?st2'))
      \<and> options (last (streams st')) = watch_options_of (lastResumeToken ?st2')"
      by (rule timer_fires) (use t2 in simp_all)
    then show ?thesis using False a b t2 by auto
  qed
  show ?thesis using ex1 con retry by blast
qed


theorem every_error_schedules_a_retry_witness:
  "\<exists>st st1 st3. run streaming init = Some st
     \<and> step (StreamError 0 unauthorized_error) st = Some st1
     \<and> spec_classify unauthorized_error = Fatal
     \<and> exited st1 = None
     \<and> run [Settled (ErrorClose 0) (Rejected ''close failed''), TimePasses 5000, TimerFires 0] st1
         = Some st3
     \<and> exited st3 = None \<and> length (streams st3) = Suc (length (streams st))"
proof -
  have "\<exists>st st1. run streaming init = Some st
     \<and> step (StreamError 0 unauthorized_error) st = Some st1
     \<and> spec_classify unauthorized_error = Fatal \<and> \<not> closed (streams st ! 0)"
    by (simp add: handler_defs runtime_defs input_defs spec_classify_def)
  then obtain st st1 where a: "run streaming init = Some st"
    and b: "step (StreamError 0 unauthorized_error) st = Some st1"
    and c: "spec_classify unauthorized_error = Fatal"
    and d: "\<not> closed (streams st ! 0)" by blast
  from every_error_schedules_a_retry[OF reachableI[OF a] b] a b c d show ?thesis
    by (auto simp del: run.simps)
qed

text \<open>
  C3 as stated fails. An authorization failure is fatal for the specification's
  classifier, yet the program does not stop after it: the process is running and, after
  the retry interval, a second subscription has been opened.
\<close>

theorem fatal_error_is_retried_counterexample:
  "spec_classify unauthorized_error = Fatal
   \<and> map_option (\<lambda>st. (length (streams st), exited st))
       (run (streaming @ [StreamError 0 unauthorized_error]) init) = Some (1, None)
   \<and> map_option (\<lambda>st. (length (streams st), exited st))
       (run (streaming @ [StreamError 0 unauthorized_error, Settled (ErrorClose 0) Resolved,
          TimePasses 5000, TimerFires 0]) init) = Some (2, None)"
  by (simp add: handler_defs runtime_defs input_defs spec_classify_def)

section \<open>Delivered changes\<close>

lemma on_change_fields:
  "lastResumeToken (on_change c st) = Some (change_id c)"
  "streams (on_change c st) = streams st"
  "timers (on_change c st) = timers st"
  "awaiting (on_change c st) = awaiting st"
  "exited (on_change c st) = exited st"
  "warnings (on_change c st) = warnings st"
  "console (on_change c st) = console st @
     [(LOG, ''--- New Document Inserted (Resumable)! ---''), (LOG, ''Operation Type:''),
      (LOG, ''Full Document:''), (LOG, ''Updated lastResumeToken to:''),
      (LOG, ''--------------------------------------------'')]"
  by (simp_all add: on_change_def runtime_defs warnings_def Let_def)

lemma run_changes:
  assumes "exited st = None" "s < length (streams st)" "\<not> closed (streams st ! s)"
  shows "\<exists>st'. run (map (StreamChange s) evs) st = Some st'
    \<and> lastResumeToken st' = (if evs = [] then lastResumeToken st else Some (change_id (last evs)))
    \<and> streams st' = streams st \<and> timers st' = timers st \<and> awaiting st' = awaiting st
    \<and> exited st' = None"
  using assms
proof (induction evs arbitrary: st)
  case Nil
  then show ?case by simp
next
  case (Cons ev evs)
  let ?st1 = "on_change ev st"
  have s: "step (StreamChange s ev) st = Some ?st1"
    using Cons.prems by (simp add: step_def)
  have "exited ?st1 = None" "s < length (streams ?st1)" "\<not> closed (streams ?st1 ! s)"
    using Cons.prems by (simp_all add: on_change_fields)
  from Cons.IH[OF this] obtain st' where
    "run (map (StreamChange s) evs) ?st1 = Some st'"
    "lastResumeToken st' =
       (if evs = [] then lastResumeToken ?st1 else Some (change_id (last evs)))"
    "streams st' = streams ?st1" "timers st' = timers ?st1" "awaiting st' = awaiting ?st1"
    "exited st' = None"
    by blast
  with s show ?case by (simp add: on_change_fields)
qed

text \<open>
  C4. When the events \<open>evs\<close> (not empty) are delivered one after the other on an open
  stream, with nothing else in between, every delivery is accepted and afterwards the
  checkpoint \<^verbatim>\<open>lastResumeToken\<close> is the \<^verbatim>\<open>_id\<close> of the last event of \<open>evs\<close>.
\<close>

theorem checkpoint_is_last_delivered:
  assumes "exited st = None" and "s < length (streams st)" and "\<not> closed (streams st ! s)"
    and "evs \<noteq> []"
  shows "\<exists>st'. run (map (StreamChange s) evs) st = Some st'
    \<and> lastResumeToken st' = Some (change_id (last evs))
    \<and> streams st' = streams st \<and> timers st' = timers st \<and> awaiting st' = awaiting st"
  using run_changes[OF assms(1-3), of evs] assms(4) by auto

theorem checkpoint_is_last_delivered_witness:
  "\<exists>st st'. run streaming init = Some st
     \<and> exited st = None \<and> 0 < length (streams st) \<and> \<not> closed (streams st ! 0)
     \<and> [evA, evB, evC] \<noteq> []
     \<and> run (map (StreamChange 0) [evA, evB, evC]) st = Some st'
     \<and> lastResumeToken st' = Some (ResumeToken ''C'')"
proof -
  have "\<exists>st. run streaming init = Some st
     \<and> exited st = None \<and> 0 < length (streams st) \<and> \<not> closed (streams st ! 0)"
    by (simp add: handler_defs runtime_defs input_defs)
  then obtain st where a: "run streaming init = Some st"
    and b: "exited st = None" and c: "0 < length (streams st)"
    and d: "\<not> closed (streams st ! 0)" by blast
  have e: "[evA, evB, evC] \<noteq> []" by simp
  from checkpoint_is_last_delivered[OF b c d e] a b c d e show ?thesis
    by (auto simp: evC_def)
qed




section \<open>The retry interval and stop requests\<close>

lemma run_append:
  "run (xs @ ys) st = (case run xs st of None \<Rightarrow> None | Some st' \<Rightarrow> run ys st')"
  by (induction xs arbitrary: st) (auto split: option.splits)


lemma cleanup_fields:
  "streams (cleanup sig st) = streams st"
  "timers (cleanup sig st) = timers st"
  "lastResumeToken (cleanup sig st) = lastResumeToken st"
  "exited (cleanup sig st) = exited st"
  "connected (cleanup sig st) = connected st"
  "awaiting (cleanup sig st) = awaiting st @ [CleanupDisconnect]"
  "console (cleanup sig st) = console st @ [(LOG,
     ''Received signal. Forcing exit for demo simplicity, but ensuring Mongoose disconnects.'')]"
  by (simp_all add: cleanup_def runtime_defs)

lemma cleanup_disconnected_fields:
  "streams (cleanup_disconnected r st) = streams st"
  "timers (cleanup_disconnected r st) = timers st"
  "lastResumeToken (cleanup_disconnected r st) = lastResumeToken st"
  "exited (cleanup_disconnected r st) = Some 0"
  "connected (cleanup_disconnected Resolved st) = False"
  "awaiting (cleanup_disconnected r st) = awaiting st"
  by (cases r; simp add: cleanup_disconnected_def runtime_defs)+




section \<open>A close without an error\<close>

lemma all_closed_set_closed:
  assumes "\<forall>x \<in> set (streams st). closed x"
  shows "\<forall>x \<in> set (streams (set_closed k st)). closed x"
proof (cases "k < length (streams st)")
  case True
  with assms show ?thesis
    by (auto simp: set_closed_def all_set_conv_all_nth nth_list_update)
next
  case False
  with assms show ?thesis by (simp add: set_closed_def list_update_beyond)
qed

lemma idle_frame:
  "idle (console_out l m st) = idle st"
  "idle (set_closed k st) = idle st"
  "idle (st\<lparr>now := n\<rparr>) = idle st"
  "idle (process_exit c st) = idle st"
  "idle (st\<lparr>connected := b\<rparr>) = idle st"
  by (simp_all add: idle_def runtime_defs)

lemma idle_await: "\<not> is_error_close p \<Longrightarrow> p \<noteq> Connect \<Longrightarrow> idle (await p st) = idle st"
  by (auto simp: idle_def await_def)

lemma idle_remove1: "idle st \<Longrightarrow> idle (st\<lparr>awaiting := remove1 p (awaiting st)\<rparr>)"
  by (auto simp: idle_def filter_empty_conv dest: notin_set_remove1)

lemma idle_resume:
  assumes "idle st" "p \<noteq> Connect" "\<not> is_error_close p"
  shows "idle (resume p r st)"
  using assms
  by (cases p; cases r)
     (simp_all add: resume_def cleanup_disconnected_def demo_finally_closed_def
        demo_disconnected_def demo_disconnect_def idle_frame idle_await)

lemma idle_cleanup: "idle (cleanup sig st) = idle st"
  by (simp add: cleanup_def idle_await idle_frame)

lemma parked_step:
  assumes "parked st" "step e st = Some st'" "\<not> is_stream_error e"
  shows "parked st' \<and> length (streams st') = length (streams st)
    \<and> lastResumeToken st' = lastResumeToken st"
proof (cases e)
  case ProgramStart
  with assms(1,2) show ?thesis by (auto simp: step_def parked_def idle_def split: if_splits)
next
  case (StreamChange s c)
  with assms(1,2) show ?thesis by (auto simp: step_def parked_def split: if_splits)
next
  case (StreamChangeThrows s c k)
  with assms(1,2) show ?thesis by (auto simp: step_def parked_def split: if_splits)
next
  case (StreamError s err)
  with assms(3) show ?thesis by simp
next
  case (StreamClose s)
  with assms(1,2) have st': "st' = on_close (set_closed s st)"
    by (auto simp: step_def split: if_splits)
  have "parked (on_close (set_closed s st))"
    using assms(1) all_closed_set_closed[of st s]
    by (simp add: parked_def on_close_def idle_frame console_out_fields)
  then show ?thesis unfolding st' by (simp add: on_close_fields)
next
  case (Settled p r)
  define X where "X = settle p r st"
  from settled_step[of p r st st'] Settled assms(2)
  have p: "p \<in> set (awaiting X)"
    and st': "st' = resume p r (X\<lparr>awaiting := remove1 p (awaiting X)\<rparr>)"
    by (simp_all add: X_def)
  have X: "parked X" "streams X = streams st" "lastResumeToken X = lastResumeToken st"
    using assms(1) by (simp_all add: X_def settle_preds settle_fields)
  from p X(1) have plain: "p \<noteq> Connect" "\<not> is_error_close p"
    by (auto simp: parked_def idle_def filter_empty_conv)
  have "idle st'"
    unfolding st' using X(1) plain by (simp add: idle_resume idle_remove1 parked_def)
  then show ?thesis
    unfolding st' using X plain by (simp add: parked_def resume_plain_fields)
next
  case (TimePasses n)
  with assms(1,2) show ?thesis
    by (auto simp: step_def parked_def idle_frame split: if_splits)
next
  case (TimerFires i)
  with assms(1,2) show ?thesis by (auto simp: step_def parked_def idle_def split: if_splits)
next
  case (ProcessSignal sig)
  with assms(1,2) show ?thesis
    by (auto simp: step_def parked_def idle_cleanup cleanup_fields split: if_splits)
qed

lemma parked_run:
  assumes "parked st" "run tr st = Some st'" "\<forall>e \<in> set tr. \<not> is_stream_error e"
  shows "parked st' \<and> length (streams st') = length (streams st)
    \<and> lastResumeToken st' = lastResumeToken st"
  using assms
proof (induction tr arbitrary: st)
  case Nil then show ?case by simp
next
  case (Cons e tr)
  then obtain st1 where s: "step e st = Some st1" and r: "run tr st1 = Some st'"
    by (auto split: option.splits)
  from parked_step[OF Cons.prems(1) s] Cons.prems(3)
  have p1: "parked st1" "length (streams st1) = length (streams st)"
    "lastResumeToken st1 = lastResumeToken st" by simp_all
  from Cons.IH[OF p1(1) r] Cons.prems(3) p1 show ?case by simp
qed

text \<open>
  C7, as the code has it. When a stream that has not errored is closed, the
  \<^verbatim>\<open>'close'\<close> handler only prints its line: the checkpoint is kept, no retry timer is set,
  nothing is awaited. As long as no stream error is delivered afterwards, the checkpoint
  stays, no timer appears and no new subscription is opened, however much time passes.
\<close>

theorem clean_close_does_not_resubscribe:
  assumes "reachable st" and "step (StreamClose s) st = Some st1"
    and "\<not> errored (streams st ! s)"
    and "run tr st1 = Some st2" and "\<forall>e \<in> set tr. \<not> is_stream_error e"
  shows "lastResumeToken st1 = lastResumeToken st \<and> timers st1 = [] \<and> timers st = []
    \<and> awaiting st1 = awaiting st \<and> length (streams st1) = length (streams st)
    \<and> console st1 = console st @ [(LOG,
         ''--- Mongoose Change Stream Closed (will attempt to re-establish if due to error) ---'')]
    \<and> lastResumeToken st2 = lastResumeToken st \<and> timers st2 = []
    \<and> length (streams st2) = length (streams st)"
proof -
  from assms(2) have s: "s < length (streams st)"
    and st1: "st1 = on_close (set_closed s st)"
    by (auto simp: step_def split: if_splits)
  note li = live_idle[OF inv_reachable[OF assms(1)] s assms(3)]
  have idle1: "idle st1"
    unfolding st1 using li(1) by (simp add: on_close_def idle_frame)
  have "closed (streams st1 ! j)" if "j < length (streams st1)" for j
    using that li(2) s unfolding st1
    by (cases "j = s") (auto simp: on_close_def runtime_defs nth_list_update)
  then have p1: "parked st1"
    using idle1 by (simp add: parked_def all_set_conv_all_nth)
  from parked_run[OF p1 assms(4,5)]
  have "parked st2" "length (streams st2) = length (streams st1)"
    "lastResumeToken st2 = lastResumeToken st1" by simp_all
  moreover have "console st1 = console st @ [(LOG,
         ''--- Mongoose Change Stream Closed (will attempt to re-establish if due to error) ---'')]"
    unfolding st1 by (simp add: on_close_def runtime_defs)
  ultimately show ?thesis
    using li(1) idle1 unfolding st1 by (simp add: on_close_fields parked_def idle_def)
qed

theorem clean_close_does_not_resubscribe_witness:
  "\<exists>st st1 st2. run (streaming @ [StreamChange 0 evA]) init = Some st
     \<and> step (StreamClose 0) st = Some st1
     \<and> \<not> errored (streams st ! 0)
     \<and> run [TimePasses 5000, ProcessSignal ''SIGTERM'', TimePasses 5000] st1 = Some st2
     \<and> (\<forall>e \<in> set [TimePasses 5000, ProcessSignal ''SIGTERM'', TimePasses 5000].
           \<not> is_stream_error e) = True
     \<and> lastResumeToken st2 = Some (ResumeToken ''A'') \<and> timers st2 = []
     \<and> length (streams st2) = 1"
proof -
  have "\<exists>st st1 st2. run (streaming @ [StreamChange 0 evA]) init = Some st
     \<and> step (StreamClose 0) st = Some st1
     \<and> \<not> errored (streams st ! 0)
     \<and> run [TimePasses 5000, ProcessSignal ''SIGTERM'', TimePasses 5000] st1 = Some st2
     \<and> lastResumeToken st = Some (ResumeToken ''A'') \<and> length (streams st) = 1"
    by (simp add: handler_defs runtime_defs input_defs)
  then obtain st st1 st2 where a: "run (streaming @ [StreamChange 0 evA]) init = Some st"
    and b: "step (StreamClose 0) st = Some st1"
    and c: "\<not> errored (streams st ! 0)"
    and d: "run [TimePasses 5000, ProcessSignal ''SIGTERM'', TimePasses 5000] st1 = Some st2"
    and e: "lastResumeToken st = Some (ResumeToken ''A'')" "length (streams st) = 1" by blast
  have f: "\<forall>e \<in> set [TimePasses 5000, ProcessSignal ''SIGTERM'', TimePasses 5000].
           \<not> is_stream_error e" by simp
  from clean_close_does_not_resubscribe[OF reachableI[OF a] b c d f] a b c d e f
  show ?thesis by (auto simp del: run.simps)
qed

text \<open>
  C7 as stated fails. After the changes up to \<open>A\<close> the stream is closed without an
  error: 5000 ms later the checkpoint is still \<open>A\<close>, but no timer is pending, nothing is
  awaited, there is still one stream, and no timer can fire.
\<close>

theorem clean_close_counterexample:
  "map_option (\<lambda>st. (closed (streams st ! 0), errored (streams st ! 0)))
     (run (streaming @ [StreamChange 0 evA, StreamClose 0]) init) = Some (True, False)
   \<and> map_option (\<lambda>st. (lastResumeToken st, timers st, awaiting st, length (streams st)))
     (run (streaming @ [StreamChange 0 evA, StreamClose 0, TimePasses 5000]) init)
       = Some (Some (ResumeToken ''A''), [], [], 1)
   \<and> run (streaming @ [StreamChange 0 evA, StreamClose 0, TimePasses 5000, TimerFires 0]) init
       = None"
  by (simp add: handler_defs runtime_defs input_defs)

section \<open>One session at a time\<close>

lemma opening_step:
  assumes "step e st = Some st'" "length (streams st') \<noteq> length (streams st)"
  shows "timers st \<noteq> [] \<or> Connect \<in> set (awaiting st)"
proof (cases e)
  case (Settled p r)
  show ?thesis
  proof (cases "p = Connect")
    case True
    with Settled assms(1) show ?thesis by (auto simp: step_def split: if_splits)
  next
    case False
    with Settled assms show ?thesis
      by (auto simp: step_def resume_plain_fields settle_fields split: if_splits)
  qed
next
  case (TimerFires i)
  with assms(1) show ?thesis by (auto simp: step_def split: if_splits)
qed (use assms in \<open>auto simp: step_def runMongooseResumableDemo_def await_def on_change_fields
       on_change_throws_fields on_error_fields mark_errored_fields on_close_fields cleanup_fields
       split: if_splits\<close>)

lemma close_targets_append: "close_targets (xs @ ys) = close_targets xs @ close_targets ys"
  by (induction xs rule: close_targets.induct) simp_all

lemma close_targets_remove1_error:
  "\<forall>k. FinallyClose k \<notin> set aw \<Longrightarrow>
     close_targets (remove1 (ErrorClose s) aw) = remove1 s (close_targets aw)"
  by (induction aw rule: close_targets.induct) auto

lemma close_targets_remove1_plain:
  "p = Connect \<or> p = CleanupDisconnect \<or> p = FinallyDisconnect \<Longrightarrow>
     close_targets (remove1 p aw) = close_targets aw"
  by (induction aw rule: close_targets.induct) auto

lemma close_targets_in:
  "i \<in> set (close_targets aw) \<Longrightarrow> ErrorClose i \<in> set aw \<or> FinallyClose i \<in> set aw"
  by (induction aw rule: close_targets.induct) auto

lemma close_targets_none:
  "filter is_error_close aw = [] \<Longrightarrow> \<forall>k. FinallyClose k \<notin> set aw \<Longrightarrow> close_targets aw = []"
  by (induction aw rule: close_targets.induct) (auto split: if_splits)

lemma closing_init: "closing_inv init"
  by (simp add: closing_inv_def init_def)

lemma on_error_closing:
  "closing (on_error s err st) = (if closed (streams st ! s) then closing st else closing st @ [s])"
  "close_failed (on_error s err st) = close_failed st"
  "s < length (streams st) \<Longrightarrow> closed (streams (on_error s err st) ! s)"
  by (simp_all add: on_error_def on_error_retry_def runtime_defs Let_def)

lemma on_error_closed_closing:
  "closing (on_error_closed r st) = closing st"
  "close_failed (on_error_closed r st) = close_failed st"
  "awaiting (on_error_closed r st) = awaiting st"
  by (cases r; simp add: on_error_closed_def on_error_retry_def runtime_defs)+

lemma closing_step:
  assumes "scheduler_inv st" "closing_inv st" "step e st = Some st'"
  shows "closing_inv st'"
proof (cases e)
  case (Settled p r)
  from assms(3) Settled have p: "p \<in> set (awaiting st)"
    and st': "st' = resume p r ((settle p r st)\<lparr>awaiting := remove1 p (awaiting st)\<rparr>)"
    by (auto simp: step_def split: if_splits)
  have nf: "\<forall>k. FinallyClose k \<notin> set (awaiting st)"
    using assms(1) by (simp add: scheduler_inv_def)
  show ?thesis
  proof (cases p)
    case Connect
    with st' assms(2) show ?thesis
      by (cases r)
         (auto simp: closing_inv_def resume_def settle_def demo_connected_def demo_finally_def
            demo_disconnect_def setupChangeStream_def runtime_defs Let_def
            close_targets_append close_targets_remove1_plain split: option.splits)
  next
    case (ErrorClose s)
    with st' assms(2) nf show ?thesis
      by (simp add: closing_inv_def resume_def settle_def close_settled_def
          on_error_closed_closing close_targets_remove1_error)
  next
    case CleanupDisconnect
    with st' assms(2) show ?thesis
      by (cases r)
         (simp_all add: closing_inv_def resume_def settle_def cleanup_disconnected_def
            runtime_defs close_targets_remove1_plain)
  next
    case (FinallyClose s)
    with p nf show ?thesis by simp
  next
    case FinallyDisconnect
    with st' assms(2) show ?thesis
      by (cases r)
         (simp_all add: closing_inv_def resume_def settle_def demo_disconnected_def
            runtime_defs close_targets_remove1_plain)
  qed
next
  case (StreamError s err)
  with assms(2,3) show ?thesis
    by (auto simp: step_def closing_inv_def on_error_def on_error_retry_def runtime_defs Let_def
        close_targets_append split: if_splits)
qed (use assms(2,3) in \<open>auto simp: step_def closing_inv_def runMongooseResumableDemo_def
       on_change_def on_change_throws_def on_close_def cleanup_def setupChangeStream_def
       runtime_defs Let_def close_targets_append split: if_splits\<close>)

lemma closing_run:
  "scheduler_inv st \<Longrightarrow> closing_inv st \<Longrightarrow> run tr st = Some st' \<Longrightarrow> closing_inv st'"
proof (induction tr arbitrary: st)
  case Nil then show ?case by simp
next
  case (Cons e tr)
  then obtain st1 where s: "step e st = Some st1" and r: "run tr st1 = Some st'"
    by (auto split: option.splits)
  from Cons.IH[OF inv_step[OF Cons.prems(1) s] closing_step[OF Cons.prems(1,2) s] r]
  show ?case .
qed

lemma closing_reachable: "reachable st \<Longrightarrow> closing_inv st"
  unfolding reachable_def using closing_run[OF inv_init closing_init] by blast

text \<open>
  C8, as the code has it. In every reachable state at most one session is running or
  being closed: every other open session is one whose \<^verbatim>\<open>close()\<close> was rejected. On an
  error on a stream that is not closed the handler calls \<^verbatim>\<open>close()\<close>, waits for it, and
  sets the retry timer only when that promise has settled: right after the error the
  close is in flight, the handler is waiting and no timer is set; the timer appears with
  the settling, resolved or rejected. While a retry timer is pending, and whenever a
  delivery opens a new subscription, no close is in flight and a session can still be
  open only because its \<^verbatim>\<open>close()\<close> was rejected.
\<close>

theorem close_settles_before_retry:
  assumes "reachable st"
  shows "(\<forall>i j. i < length (streams st) \<and> j < length (streams st)
            \<and> session_open st i \<and> session_open st j
            \<and> i \<notin> set (close_failed st) \<and> j \<notin> set (close_failed st) \<longrightarrow> i = j)
    \<and> (timers st \<noteq> [] \<longrightarrow> closing st = []
          \<and> (\<forall>i < length (streams st). session_open st i \<longrightarrow> i \<in> set (close_failed st)))
    \<and> (\<forall>e st'. step e st = Some st' \<and> length (streams st') \<noteq> length (streams st)
          \<longrightarrow> closing st = []
              \<and> (\<forall>i < length (streams st). session_open st i \<longrightarrow> i \<in> set (close_failed st)))
    \<and> (\<forall>s err st1. step (StreamError s err) st = Some st1 \<and> \<not> closed (streams st ! s)
          \<longrightarrow> closed (streams st1 ! s) \<and> closing st1 = [s]
              \<and> awaiting st1 = awaiting st @ [ErrorClose s] \<and> timers st1 = []
              \<and> (\<forall>r. \<exists>st2. step (Settled (ErrorClose s) r) st1 = Some st2
                    \<and> closing st2 = []
                    \<and> close_failed st2 = (case r of Resolved \<Rightarrow> close_failed st
                                           | Rejected x \<Rightarrow> close_failed st @ [s])
                    \<and> timers st2 = [\<lparr>set_at = now st, delay = 5000\<rparr>]))"
proof -
  note inv = inv_reachable[OF assms]
  have cl: "closing st = close_targets (awaiting st)"
    using closing_reachable[OF assms] by (simp add: closing_inv_def)
  have nf: "\<forall>k. FinallyClose k \<notin> set (awaiting st)"
    using inv by (simp add: scheduler_inv_def)
  have ob: "(if started st then 0 else 1) + count_list (awaiting st) Connect + live st
      + length (timers st) + length (filter is_error_close (awaiting st)) \<le> 1"
    using inv by (simp add: scheduler_inv_def obligations_def)
  have inflight: "ErrorClose i \<in> set (awaiting st)" if "i \<in> set (closing st)" for i
    using close_targets_in[of i "awaiting st"] that nf cl by auto
  have one: "i = j"
    if "i < length (streams st)" "j < length (streams st)" "session_open st i" "session_open st j"
      "i \<notin> set (close_failed st)" "j \<notin> set (close_failed st)"
    for i j
  proof (cases "filter is_error_close (awaiting st) = []")
    case True
    then have "closing st = []" using cl nf by (simp add: close_targets_none)
    with that(3-6) have "\<not> closed (streams st ! i)" "\<not> closed (streams st ! j)"
      by (simp_all add: session_open_def)
    with inv that(1,2) have "\<not> errored (streams st ! i)" "\<not> errored (streams st ! j)"
      by (auto simp: scheduler_inv_def)
    moreover have "length (filter (\<lambda>x. \<not> errored x) (streams st)) \<le> 1"
      using ob by (simp add: live_def)
    ultimately show ?thesis using filter_le1_index that(1,2) by blast
  next
    case False
    then have "1 \<le> length (filter is_error_close (awaiting st))"
      by (simp add: Suc_leI)
    with ob have l0: "live st = 0" and c1: "length (filter is_error_close (awaiting st)) \<le> 1"
      by linarith+
    have closed: "closed (streams st ! k)" if "k < length (streams st)" for k
    proof -
      from l0 that have "errored (streams st ! k)" by (auto simp: live_def filter_empty_conv)
      with inv that show ?thesis by (auto simp: scheduler_inv_def)
    qed
    from that closed have "i \<in> set (closing st)" "j \<in> set (closing st)"
      by (auto simp: session_open_def)
    then have "ErrorClose i \<in> set (awaiting st)" "ErrorClose j \<in> set (awaiting st)"
      using inflight by simp_all
    from filter_le1_unique[OF c1 this] show ?thesis by simp
  qed
  have pending: "closing st = []
      \<and> (\<forall>i < length (streams st). session_open st i \<longrightarrow> i \<in> set (close_failed st))"
    if "timers st \<noteq> [] \<or> Connect \<in> set (awaiting st)"
  proof -
    from that have "1 \<le> length (timers st) + count_list (awaiting st) Connect"
    proof
      assume "timers st \<noteq> []"
      then show ?thesis by (simp add: Suc_leI)
    next
      assume "Connect \<in> set (awaiting st)"
      then have "count_list (awaiting st) Connect \<noteq> 0" by (metis count_list_0_iff)
      then show ?thesis by simp
    qed
    with ob have l0: "live st = 0" and "length (filter is_error_close (awaiting st)) = 0"
      by linarith+
    then have c0: "closing st = []" using cl nf by (simp add: close_targets_none)
    have "closed (streams st ! k)" if "k < length (streams st)" for k
    proof -
      from l0 that have "errored (streams st ! k)" by (auto simp: live_def filter_empty_conv)
      with inv that show ?thesis by (auto simp: scheduler_inv_def)
    qed
    with c0 show ?thesis by (simp add: session_open_def)
  qed
  have awaited: "closed (streams st1 ! s) \<and> closing st1 = [s]
              \<and> awaiting st1 = awaiting st @ [ErrorClose s] \<and> timers st1 = []
              \<and> (\<forall>r. \<exists>st2. step (Settled (ErrorClose s) r) st1 = Some st2
                    \<and> closing st2 = []
                    \<and> close_failed st2 = (case r of Resolved \<Rightarrow> close_failed st
                                           | Rejected x \<Rightarrow> close_failed st @ [s])
                    \<and> timers st2 = [\<lparr>set_at = now st, delay = 5000\<rparr>])"
    if "step (StreamError s err) st = Some st1" "\<not> closed (streams st ! s)" for s err st1
  proof -
    from that(1) have s: "s < length (streams st)" "\<not> errored (streams st ! s)"
      and ex: "exited st = None"
      and st1: "st1 = on_error s err (mark_errored s st)"
      by (auto simp: step_def split: if_splits)
    have idle: "idle st" using live_idle(1)[OF inv s] .
    then have t0: "timers st = []" and c0: "closing st = []"
      using cl nf by (simp_all add: idle_def close_targets_none)
    have nc: "\<not> closed (streams (mark_errored s st) ! s)"
      using that(2) s(1) by (simp add: mark_errored_fields)
    have m: "closing (mark_errored s st) = closing st"
      "close_failed (mark_errored s st) = close_failed st"
      by (simp_all add: mark_errored_def)
    have f1: "closed (streams st1 ! s)" "closing st1 = [s]"
      "awaiting st1 = awaiting st @ [ErrorClose s]" "timers st1 = []"
      "exited st1 = None" "now st1 = now st" "close_failed st1 = close_failed st"
      unfolding st1 using nc s(1) t0 c0 ex m
      by (simp_all add: on_error_closing on_error_fields mark_errored_fields)
    have "\<exists>st2. step (Settled (ErrorClose s) r) st1 = Some st2
                    \<and> closing st2 = []
                    \<and> close_failed st2 = (case r of Resolved \<Rightarrow> close_failed st
                                           | Rejected x \<Rightarrow> close_failed st @ [s])
                    \<and> timers st2 = [\<lparr>set_at = now st, delay = 5000\<rparr>]" for r
      using f1
      by (cases r)
         (simp_all add: step_def resume_def settle_def close_settled_def
            on_error_closed_closing on_error_closed_fields)
    with f1 show ?thesis by blast
  qed
  show ?thesis
    using one pending opening_step awaited by blast
qed

theorem close_settles_before_retry_witness:
  "\<exists>st st1 st2. run (streaming @ [StreamChange 0 evA]) init = Some st
     \<and> step (StreamError 0 timeout_error) st = Some st1
     \<and> \<not> closed (streams st ! 0)
     \<and> closed (streams st1 ! 0) \<and> closing st1 = [0]
     \<and> awaiting st1 = awaiting st @ [ErrorClose 0] \<and> timers st1 = []
     \<and> step (Settled (ErrorClose 0) Resolved) st1 = Some st2
     \<and> closing st2 = [] \<and> close_failed st2 = [] \<and> timers st2 \<noteq> []
     \<and> length (streams st2) = 1 \<and> \<not> session_open st2 0"
proof -
  have "\<exists>st st1 st2. run (streaming @ [StreamChange 0 evA]) init = Some st
     \<and> step (StreamError 0 timeout_error) st = Some st1
     \<and> \<not> closed (streams st ! 0)
     \<and> step (Settled (ErrorClose 0) Resolved) st1 = Some st2
     \<and> close_failed st2 = [] \<and> timers st2 \<noteq> [] \<and> length (streams st2) = 1"
    by (simp add: handler_defs runtime_defs input_defs)
  then obtain st st1 st2 where a: "run (streaming @ [StreamChange 0 evA]) init = Some st"
    and b: "step (StreamError 0 timeout_error) st = Some st1"
    and c: "\<not> closed (streams st ! 0)"
    and d: "step (Settled (ErrorClose 0) Resolved) st1 = Some st2"
    and e: "close_failed st2 = []" "timers st2 \<noteq> []" "length (streams st2) = 1"
    by blast
  have "run ((streaming @ [StreamChange 0 evA]) @ [StreamError 0 timeout_error]) init = Some st1"
    using a b by (simp only: run_append option.case) simp
  then have "run (((streaming @ [StreamChange 0 evA]) @ [StreamError 0 timeout_error])
      @ [Settled (ErrorClose 0) Resolved]) init = Some st2"
    using d by (simp only: run_append option.case) simp
  from close_settles_before_retry[OF reachableI[OF this]] e
  have f: "closing st2 = []" "\<not> session_open st2 0" by auto
  from close_settles_before_retry[OF reachableI[OF a]] b c
  have "closed (streams st1 ! 0) \<and> closing st1 = [0]
     \<and> awaiting st1 = awaiting st @ [ErrorClose 0] \<and> timers st1 = []" by blast
  with a b c d e f show ?thesis by blast
qed

text \<open>
  C8 as stated fails when the close is rejected. The handler prints the rejection and
  sets the retry timer all the same (line 61): the first session, whose close failed, is
  still open when the timer is pending, and after the interval the second session is
  open beside it.
\<close>

theorem rejected_close_counterexample:
  "map_option (\<lambda>st. (length (streams st), session_open st 0, closing st, close_failed st,
       timers st \<noteq> []))
     (run (streaming @ [StreamError 0 timeout_error,
        Settled (ErrorClose 0) (Rejected ''close failed'')]) init)
       = Some (1, True, [], [0], True)
   \<and> map_option (\<lambda>st. (length (streams st), session_open st 0, session_open st 1))
     (run (streaming @ [StreamError 0 timeout_error,
        Settled (ErrorClose 0) (Rejected ''close failed''), TimePasses 5000, TimerFires 0]) init)
       = Some (2, True, True)"
  by (simp add: handler_defs runtime_defs input_defs session_open_def)

section \<open>Shutdown\<close>

text \<open>
  C9, as the code has it. On a signal \<^verbatim>\<open>cleanup\<close> calls \<^verbatim>\<open>mongoose.disconnect()\<close> and
  waits for it; it closes no change stream and cancels no timer. When the disconnect has
  settled, resolved or rejected (a rejection is only printed), the process exits with
  code 0, and after the exit nothing is delivered, so no subscription is opened. On
  success the connection is released. A second signal before the exit is handled in the
  same way, without failure.
\<close>

theorem cleanup_disconnects_then_exits:
  assumes "exited st = None"
  shows "\<exists>st1. step (ProcessSignal sig) st = Some st1
    \<and> streams st1 = streams st \<and> timers st1 = timers st \<and> exited st1 = None
    \<and> awaiting st1 = awaiting st @ [CleanupDisconnect]
    \<and> (\<forall>r. \<exists>st2. step (Settled CleanupDisconnect r) st1 = Some st2
          \<and> exited st2 = Some 0 \<and> streams st2 = streams st
          \<and> (r = Resolved \<longrightarrow> \<not> connected st2)
          \<and> (\<forall>e. step e st2 = None))
    \<and> (\<forall>sig'. \<exists>st1'. step (ProcessSignal sig') st1 = Some st1'
          \<and> streams st1' = streams st \<and> timers st1' = timers st \<and> exited st1' = None
          \<and> (\<forall>r. \<exists>st2. step (Settled CleanupDisconnect r) st1' = Some st2
                \<and> exited st2 = Some 0))"
proof -
  let ?st1 = "cleanup sig st"
  have a: "step (ProcessSignal sig) st = Some ?st1"
    using assms by (simp add: step_def)
  have exits: "\<exists>st2. step (Settled CleanupDisconnect r) x = Some st2
          \<and> exited st2 = Some 0 \<and> streams st2 = streams x
          \<and> (r = Resolved \<longrightarrow> \<not> connected st2)
          \<and> (\<forall>e. step e st2 = None)"
    if "exited x = None" "CleanupDisconnect \<in> set (awaiting x)" for x r
    using that
    by (cases r)
       (simp_all add: step_def resume_def settle_def cleanup_disconnected_fields)
  have b: "\<exists>st1'. step (ProcessSignal sig') ?st1 = Some st1'
          \<and> streams st1' = streams st \<and> timers st1' = timers st \<and> exited st1' = None
          \<and> (\<forall>r. \<exists>st2. step (Settled CleanupDisconnect r) st1' = Some st2
                \<and> exited st2 = Some 0)" for sig'
  proof -
    let ?st1' = "cleanup sig' ?st1"
    have "step (ProcessSignal sig') ?st1 = Some ?st1'"
      using assms by (simp add: step_def cleanup_fields)
    moreover have "\<exists>st2. step (Settled CleanupDisconnect r) ?st1' = Some st2
                \<and> exited st2 = Some 0" for r
      using exits[of ?st1' r] assms by (auto simp: cleanup_fields)
    ultimately show ?thesis using assms by (simp add: cleanup_fields)
  qed
  have c: "\<exists>st2. step (Settled CleanupDisconnect r) ?st1 = Some st2
          \<and> exited st2 = Some 0 \<and> streams st2 = streams st
          \<and> (r = Resolved \<longrightarrow> \<not> connected st2)
          \<and> (\<forall>e. step e st2 = None)" for r
    using exits[of ?st1 r] assms by (auto simp: cleanup_fields)
  show ?thesis
    using a b c assms by (simp add: cleanup_fields)
qed

theorem cleanup_disconnects_then_exits_witness:
  "\<exists>st st1 st2. run streaming init = Some st \<and> exited st = None
     \<and> step (ProcessSignal ''SIGINT'') st = Some st1
     \<and> streams st1 = streams st \<and> exited st1 = None
     \<and> step (Settled CleanupDisconnect (Rejected ''socket'')) st1 = Some st2
     \<and> exited st2 = Some 0 \<and> streams st2 = streams st
     \<and> step (ProcessSignal ''SIGTERM'') st2 = None"
proof -
  have "\<exists>st. run streaming init = Some st \<and> exited st = None"
    by (simp add: handler_defs runtime_defs input_defs)
  then obtain st where a: "run streaming init = Some st" and b: "exited st = None" by blast
  from cleanup_disconnects_then_exits[OF b, of "''SIGINT''"] a b show ?thesis
    by (metis outcome.distinct(1))
qed

text \<open>
  C9 as stated fails. A signal arrives while a stream is open: the connection is
  released and the process exits with code 0, but the program never closed the stream.
\<close>

theorem signal_leaves_session_open_counterexample:
  "map_option (\<lambda>st. (exited st, map closed (streams st), connected st))
     (run (streaming @ [ProcessSignal ''SIGINT'', Settled CleanupDisconnect Resolved]) init)
       = Some (Some 0, [False], False)"
  by (simp add: handler_defs runtime_defs input_defs)

section \<open>Subscription options\<close>

text \<open>
  C10. The options of every subscription that \<open>setupChangeStream\<close> issues hold the key
  \<^verbatim>\<open>resumeAfter\<close> exactly when the checkpoint is not \<^verbatim>\<open>null\<close>: they are the empty object
  for \<^verbatim>\<open>null\<close> and exactly \<^verbatim>\<open>{ resumeAfter: token }\<close> for a token.
\<close>

theorem setup_options_iff_checkpoint:
  "snd (setupChangeStream st) = length (streams st) \<and>
   length (streams (fst (setupChangeStream st))) = Suc (length (streams st)) \<and>
   options (streams (fst (setupChangeStream st)) ! snd (setupChangeStream st)) =
     (case lastResumeToken st of None \<Rightarrow> [] | Some t \<Rightarrow> [(''resumeAfter'', t)]) \<and>
   (''resumeAfter'' \<in> fst ` set (options (last (streams (fst (setupChangeStream st))))))
     = (lastResumeToken st \<noteq> None)"
  by (cases "lastResumeToken st")
     (simp_all add: setupChangeStream_def watch_def console_out_def watch_options_of_def Let_def)

theorem setup_options_iff_checkpoint_witness:
  "options (streams (fst (setupChangeStream init)) ! snd (setupChangeStream init)) = []
   \<and> options
        (streams (fst (setupChangeStream (init\<lparr>lastResumeToken := Some (ResumeToken ''A'')\<rparr>)))
          ! snd (setupChangeStream (init\<lparr>lastResumeToken := Some (ResumeToken ''A'')\<rparr>)))
       = [(''resumeAfter'', ResumeToken ''A'')]"
proof -
  have a: "lastResumeToken init = None" by (simp add: init_def)
  have b: "lastResumeToken (init\<lparr>lastResumeToken := Some (ResumeToken ''A'')\<rparr>)
      = Some (ResumeToken ''A'')" by simp
  note fresh = setup_options_iff_checkpoint[of init, THEN conjunct2, THEN conjunct2,
      THEN conjunct1]
  note resumed = setup_options_iff_checkpoint[of
      "init\<lparr>lastResumeToken := Some (ResumeToken ''A'')\<rparr>", THEN conjunct2, THEN conjunct2,
      THEN conjunct1]
  from fresh resumed show ?thesis
    by (simp only: a b option.case simp_thms)
qed

end
